theory Spec2Isabelle
  imports Complex_Main "HOL-Library.Word" "HOL-Library.Log_Nat"
begin

unbundle bit_operations_syntax

section \<open>Pool state decoder\<close>

text \<open>
  The account data of a pool is a byte slice; every field of the decoded state is an
  unsigned 64-bit integer.
\<close>

type_synonym byte = "8 word"
type_synonym uint64 = "64 word"

record RaydiumPoolState =
  Status :: uint64
  BaseDecimals :: uint64
  QuoteDecimals :: uint64
  LpDecimals :: uint64
  BaseReserve :: uint64
  QuoteReserve :: uint64
  BaseTarget :: uint64
  QuoteTarget :: uint64
  BaseAmountPerRnd :: uint64
  QuoteAmountPerRnd :: uint64

text \<open>
  The errors of the program as values: \<open>MalformedData\<close> is the decoder's
  \<^verbatim>\<open>fmt.Errorf("data too short for Raydium pool state")\<close>; \<open>ErrNaN\<close> is the
  run-time panic of \<^verbatim>\<open>big.Float.Quo\<close> (division of zero by zero).
\<close>

datatype error = MalformedData | ErrNaN

text \<open>The slice expression \<^verbatim>\<open>data[i:j]\<close>, for \<open>i \<le> j \<le> length data\<close>.\<close>

definition sub_slice :: "'a list \<Rightarrow> nat \<Rightarrow> nat \<Rightarrow> 'a list" where
  "sub_slice xs i j = take (j - i) (drop i xs)"

text \<open>
  \<^verbatim>\<open>binary.LittleEndian.Uint64(b)\<close>: byte \<open>k\<close> of \<open>b\<close> is shifted left by \<open>8 * k\<close>
  bits. It reads \<open>b[0]\<close> to \<open>b[7]\<close>; the decoder calls it on slices of eight bytes only.
\<close>

definition Uint64 :: "byte list \<Rightarrow> uint64" where
  "Uint64 b =
     ucast (b ! 0) OR push_bit 8 (ucast (b ! 1)) OR push_bit 16 (ucast (b ! 2)) OR
     push_bit 24 (ucast (b ! 3)) OR push_bit 32 (ucast (b ! 4)) OR
     push_bit 40 (ucast (b ! 5)) OR push_bit 48 (ucast (b ! 6)) OR
     push_bit 56 (ucast (b ! 7))"

definition parseRaydiumPoolState :: "byte list \<Rightarrow> error + RaydiumPoolState" where
  "parseRaydiumPoolState data =
     (if length data < 128 then Inl MalformedData
      else Inr \<lparr>
        Status = Uint64 (sub_slice data 0 8),
        BaseDecimals = Uint64 (sub_slice data 8 16),
        QuoteDecimals = Uint64 (sub_slice data 16 24),
        LpDecimals = Uint64 (sub_slice data 24 32),
        BaseReserve = Uint64 (sub_slice data 32 40),
        QuoteReserve = Uint64 (sub_slice data 40 48),
        BaseTarget = Uint64 (sub_slice data 48 56),
        QuoteTarget = Uint64 (sub_slice data 56 64),
        BaseAmountPerRnd = Uint64 (sub_slice data 64 72),
        QuoteAmountPerRnd = Uint64 (sub_slice data 72 80) \<rparr>)"

section \<open>Floating-point numbers\<close>

text \<open>
  A \<^verbatim>\<open>float64\<close> is an IEEE 754 binary64 value: a finite number, an infinity or a NaN.
  A finite value is held as the real number it denotes; the operations below round
  every result to the nearest binary64 number, ties to even, as the hardware does. The
  sign of zero is not modelled: the program never divides by a \<^verbatim>\<open>float64\<close>, and
  every other operation it uses treats both zeros alike.
\<close>

datatype f64 = Fin real | PInf | NInf | NaN

text \<open>
  \<open>ilog2 x\<close> is the exponent of a positive \<open>x\<close>: the integer \<open>k\<close> with
  \<open>2\<^sup>k \<le> x < 2\<^sup>k\<^sup>+\<^sup>1\<close>, computed on integers from the bit length (\<open>floorlog 2\<close>).
\<close>

definition ilog2 :: "real \<Rightarrow> int" where
  "ilog2 x =
     (if 1 \<le> x then int (floorlog 2 (nat \<lfloor>x\<rfloor>)) - 1
      else - int (floorlog 2 (nat (\<lceil>1 / x\<rceil> - 1))))"

text \<open>Rounding to the nearest integer, a tie going to the even neighbour.\<close>

definition rhe :: "real \<Rightarrow> int" where
  "rhe y =
     (let f = \<lfloor>y\<rfloor> in
      if y - of_int f < 1 / 2 then f
      else if 1 / 2 < y - of_int f then f + 1
      else if even f then f else f + 1)"

text \<open>Rounding to the nearest multiple of \<open>2\<^sup>e\<close>, ties to even.\<close>

definition rnd_at :: "int \<Rightarrow> real \<Rightarrow> real" where
  "rnd_at e x = sgn x * of_int (rhe (\<bar>x\<bar> / 2 powi e)) * 2 powi e"

text \<open>
  Rounding to a mantissa of \<open>p\<close> bits with an unbounded exponent: the rounding of
  \<^verbatim>\<open>big.Float\<close> at precision \<open>p\<close> in its default mode \<^verbatim>\<open>ToNearestEven\<close> (its exponent
  range of 32 bits is never left by a quotient of two \<^verbatim>\<open>uint64\<close> values).
\<close>

definition rne :: "nat \<Rightarrow> real \<Rightarrow> real" where
  "rne p x = (if x = 0 then 0 else rnd_at (ilog2 \<bar>x\<bar> - (int p - 1)) x)"

text \<open>
  Rounding to binary64: 53 bits of mantissa, the exponent of the last mantissa bit never
  below \<open>-1074\<close> (subnormal numbers), and overflow to an infinity when the rounded value
  reaches \<open>2\<^sup>1\<^sup>0\<^sup>2\<^sup>4\<close>.
\<close>

definition round64 :: "real \<Rightarrow> f64" where
  "round64 x =
     (if x = 0 then Fin 0
      else let y = rnd_at (max (ilog2 \<bar>x\<bar> - 52) (- 1074)) x in
        if 2 ^ 1024 \<le> \<bar>y\<bar> then (if 0 < x then PInf else NInf) else Fin y)"

fun fneg :: "f64 \<Rightarrow> f64" where
  "fneg (Fin x) = Fin (- x)"
| "fneg PInf = NInf"
| "fneg NInf = PInf"
| "fneg NaN = NaN"

fun fadd :: "f64 \<Rightarrow> f64 \<Rightarrow> f64" where
  "fadd (Fin x) (Fin y) = round64 (x + y)"
| "fadd NaN _ = NaN"
| "fadd _ NaN = NaN"
| "fadd PInf NInf = NaN"
| "fadd NInf PInf = NaN"
| "fadd PInf _ = PInf"
| "fadd _ PInf = PInf"
| "fadd NInf _ = NInf"
| "fadd _ NInf = NInf"

definition fsub :: "f64 \<Rightarrow> f64 \<Rightarrow> f64" where
  "fsub a b = fadd a (fneg b)"

fun fmul :: "f64 \<Rightarrow> f64 \<Rightarrow> f64" where
  "fmul (Fin x) (Fin y) = round64 (x * y)"
| "fmul NaN _ = NaN"
| "fmul _ NaN = NaN"
| "fmul (Fin x) PInf = (if x = 0 then NaN else if 0 < x then PInf else NInf)"
| "fmul (Fin x) NInf = (if x = 0 then NaN else if 0 < x then NInf else PInf)"
| "fmul PInf (Fin y) = (if y = 0 then NaN else if 0 < y then PInf else NInf)"
| "fmul NInf (Fin y) = (if y = 0 then NaN else if 0 < y then NInf else PInf)"
| "fmul PInf PInf = PInf"
| "fmul PInf NInf = NInf"
| "fmul NInf PInf = NInf"
| "fmul NInf NInf = PInf"

text \<open>The comparison \<^verbatim>\<open>a < b\<close>: false whenever an operand is a NaN.\<close>

fun flt :: "f64 \<Rightarrow> f64 \<Rightarrow> bool" where
  "flt (Fin x) (Fin y) = (x < y)"
| "flt NaN _ = False"
| "flt _ NaN = False"
| "flt _ NInf = False"
| "flt PInf _ = False"
| "flt NInf _ = True"
| "flt _ PInf = True"

text \<open>The comparison \<^verbatim>\<open>a <= b\<close>, used to state properties: less than, or equal and not NaN.\<close>

definition fle :: "f64 \<Rightarrow> f64 \<Rightarrow> bool" where
  "fle a b = (flt a b \<or> (a = b \<and> a \<noteq> NaN))"

text \<open>\<^verbatim>\<open>math.IsInf(f, 0)\<close> and \<^verbatim>\<open>math.IsNaN(f)\<close>.\<close>

definition IsInf :: "f64 \<Rightarrow> bool" where
  "IsInf f = (f = PInf \<or> f = NInf)"

definition IsNaN :: "f64 \<Rightarrow> bool" where
  "IsNaN f = (f = NaN)"

text \<open>
  \<^verbatim>\<open>math.Log\<close> and \<^verbatim>\<open>math.Exp\<close> belong to the Go library, and their results on finite
  arguments depend on the platform's implementation. Their special cases are those the
  library documents (\<open>Log(+Inf) = +Inf\<close>, \<open>Log(0) = -Inf\<close>, \<open>Log(x < 0) = NaN\<close>,
  \<open>Log(NaN) = NaN\<close>; \<open>Exp(+Inf) = +Inf\<close>, \<open>Exp(-Inf) = 0\<close>, \<open>Exp(NaN) = NaN\<close>). On a
  finite positive argument \<open>Log\<close> returns a finite number, here \<open>lg x\<close>; on a finite
  argument \<open>Exp\<close> returns \<open>ex x\<close>, which may be an infinity (overflow). The functions
  \<open>lg\<close> and \<open>ex\<close> are parameters of the model: every theorem holds for each choice.
\<close>

fun Log :: "(real \<Rightarrow> real) \<Rightarrow> f64 \<Rightarrow> f64" where
  "Log lg (Fin x) = (if x < 0 then NaN else if x = 0 then NInf else Fin (lg x))"
| "Log lg PInf = PInf"
| "Log lg NInf = NaN"
| "Log lg NaN = NaN"

fun Exp :: "(real \<Rightarrow> f64) \<Rightarrow> f64 \<Rightarrow> f64" where
  "Exp ex (Fin x) = ex x"
| "Exp ex PInf = PInf"
| "Exp ex NInf = Fin 0"
| "Exp ex NaN = NaN"

subsection \<open>Arbitrary-precision floats\<close>

text \<open>
  The values of \<^verbatim>\<open>big.Float\<close> the program builds: finite numbers and \<open>+Inf\<close>.
  \<^verbatim>\<open>SetUint64\<close> sets the precision to 64 bits, so the value is exact; \<^verbatim>\<open>Quo\<close> takes the
  precision of its operands (64 bits), rounds to nearest even, and panics with
  \<^verbatim>\<open>ErrNaN\<close> when both operands are zero or both are infinite; \<^verbatim>\<open>Float64\<close> rounds to the
  nearest \<^verbatim>\<open>float64\<close>.
\<close>

datatype bigfloat = BFin real | BInf

definition SetUint64 :: "uint64 \<Rightarrow> bigfloat" where
  "SetUint64 x = BFin (real (unat x))"

fun Quo :: "bigfloat \<Rightarrow> bigfloat \<Rightarrow> error + bigfloat" where
  "Quo (BFin x) (BFin y) =
     (if y = 0 then (if x = 0 then Inl ErrNaN else Inr BInf) else Inr (BFin (rne 64 (x / y))))"
| "Quo BInf BInf = Inl ErrNaN"
| "Quo (BFin x) BInf = Inr (BFin 0)"
| "Quo BInf (BFin y) = Inr BInf"

fun Float64 :: "bigfloat \<Rightarrow> f64" where
  "Float64 (BFin x) = round64 x"
| "Float64 BInf = PInf"

section \<open>The exchange-rate graph\<close>

record Edge =
  From :: string
  To :: string
  Weight :: f64
  Rate :: f64

record Graph =
  Vertices :: "string list"
  Edges :: "Edge list"

text \<open>\<open>addEdge\<close> appends one edge, with weight \<open>-Log(rate)\<close>.\<close>

definition addEdge :: "(real \<Rightarrow> real) \<Rightarrow> Graph \<Rightarrow> string \<Rightarrow> string \<Rightarrow> f64 \<Rightarrow> Graph" where
  "addEdge lg g from to rate =
     g\<lparr>Edges := Edges g @ [\<lparr>From = from, To = to, Weight = fneg (Log lg rate), Rate = rate\<rparr>]\<rparr>"

definition fee :: f64 where
  "fee = round64 (3 / 1000)"

text \<open>
  The two prices of a pool, before the validity check: the quotient of the reserves at
  64 bits of precision, narrowed to \<^verbatim>\<open>float64\<close> and multiplied by \<open>1 - fee\<close>. The
  result is an error when a quotient panics.
\<close>

definition poolPrices :: "uint64 \<Rightarrow> uint64 \<Rightarrow> error + (f64 \<times> f64)" where
  "poolPrices base quote =
     (let baseReserve = SetUint64 base; quoteReserve = SetUint64 quote in
      case Quo quoteReserve baseReserve of
        Inl err \<Rightarrow> Inl err
      | Inr q1 \<Rightarrow>
          (case Quo baseReserve quoteReserve of
             Inl err \<Rightarrow> Inl err
           | Inr q2 \<Rightarrow>
               Inr (fmul (Float64 q1) (fsub (Fin 1) fee), fmul (Float64 q2) (fsub (Fin 1) fee))))"

text \<open>
  For reserves that are not zero no rounding above leaves the range of normal numbers,
  and each price is the following function of the exact quotient \<open>q\<close> of the reserves
  (lemma \<open>poolPrices_nonzero\<close>): the quotient at 64 bits, narrowed to 53 bits, times the
  \<^verbatim>\<open>float64\<close> value of \<open>1 - fee\<close>, rounded to 53 bits.
\<close>

definition price_of_quotient :: "real \<Rightarrow> real" where
  "price_of_quotient q = rne 53 (rne 53 (rne 64 q) * (8980177656976769 / 9007199254740992))"

text \<open>
  The loop that sets \<open>found\<close>: it stops at the first vertex equal to either token.
\<close>

fun foundVertex :: "string list \<Rightarrow> string \<Rightarrow> string \<Rightarrow> bool" where
  "foundVertex [] baseToken quoteToken = False"
| "foundVertex (v # vs) baseToken quoteToken =
     (if v = baseToken \<or> v = quoteToken then True else foundVertex vs baseToken quoteToken)"

text \<open>
  \<open>updateGraphWithPoolState\<close>, the graph passed in and returned (the lock and the log
  lines are left out). \<open>Inl\<close> is a panic of the calling task.
\<close>

definition updateGraphWithPoolState ::
  "(real \<Rightarrow> real) \<Rightarrow> Graph \<Rightarrow> RaydiumPoolState \<Rightarrow> string \<Rightarrow> string \<Rightarrow> error + Graph" where
  "updateGraphWithPoolState lg graph state baseToken quoteToken =
     (case poolPrices (BaseReserve state) (QuoteReserve state) of
        Inl err \<Rightarrow> Inl err
      | Inr (baseToQuotePrice, quoteToBasePrice) \<Rightarrow>
          let baseToQuoteRate = fneg (Log lg baseToQuotePrice);
              quoteToBaseRate = fneg (Log lg quoteToBasePrice)
          in
            if IsInf baseToQuoteRate \<or> IsNaN baseToQuoteRate \<or>
               IsInf quoteToBaseRate \<or> IsNaN quoteToBaseRate
            then Inr graph
            else
              let found = foundVertex (Vertices graph) baseToken quoteToken;
                  g1 = (if \<not> found
                        then graph\<lparr>Vertices := Vertices graph @ [baseToken, quoteToken]\<rparr>
                        else graph);
                  g2 = addEdge lg g1 baseToken quoteToken baseToQuotePrice
              in Inr (addEdge lg g2 quoteToken baseToken quoteToBasePrice))"

text \<open>A pool state with the given reserves, every other field zero.\<close>

definition reserves :: "uint64 \<Rightarrow> uint64 \<Rightarrow> RaydiumPoolState" where
  "reserves base quote =
     \<lparr>Status = 0, BaseDecimals = 0, QuoteDecimals = 0, LpDecimals = 0,
      BaseReserve = base, QuoteReserve = quote, BaseTarget = 0, QuoteTarget = 0,
      BaseAmountPerRnd = 0, QuoteAmountPerRnd = 0\<rparr>"

section \<open>The detector\<close>

text \<open>
  The maps of \<open>bellmanFord\<close>. Reading a key that a Go map does not hold gives the zero
  value: \<open>0\<close> for a distance, the empty string for a predecessor. The map \<^verbatim>\<open>dist\<close>
  is written \<open>dst\<close>; \<open>prev\<close> is kept as an association list, the newest entry
  first; \<open>visited\<close> is a set.
\<close>

type_synonym dist_map = "string \<rightharpoonup> f64"
type_synonym prev_map = "(string \<times> string) list"

definition dist_get :: "dist_map \<Rightarrow> string \<Rightarrow> f64" where
  "dist_get dst k = (case dst k of None \<Rightarrow> Fin 0 | Some d \<Rightarrow> d)"

definition prev_get :: "prev_map \<Rightarrow> string \<Rightarrow> string" where
  "prev_get prev k = (case map_of prev k of None \<Rightarrow> [] | Some v \<Rightarrow> v)"

text \<open>All distances are \<open>+Inf\<close>, except that of \<open>start\<close>.\<close>

definition init_dist :: "string list \<Rightarrow> string \<Rightarrow> dist_map" where
  "init_dist vertices start = (foldl (\<lambda>dst v. dst(v \<mapsto> PInf)) Map.empty vertices)(start \<mapsto> Fin 0)"

text \<open>The body of the relaxation loop, for one edge.\<close>

definition relax :: "dist_map \<times> prev_map \<Rightarrow> Edge \<Rightarrow> dist_map \<times> prev_map" where
  "relax s edge =
     (case s of (dst, prev) \<Rightarrow>
        if dist_get dst (From edge) \<noteq> PInf then
          let newDist = fadd (dist_get dst (From edge)) (Weight edge) in
          if flt newDist (dist_get dst (To edge))
          then (dst(To edge \<mapsto> newDist), (To edge, From edge) # prev)
          else (dst, prev)
        else (dst, prev))"

text \<open>\<open>n - 1\<close> passes over all edges.\<close>

definition relax_rounds :: "nat \<Rightarrow> Edge list \<Rightarrow> dist_map \<times> prev_map \<Rightarrow> dist_map \<times> prev_map" where
  "relax_rounds n edges s = ((\<lambda>s. foldl relax s edges) ^^ (n - 1)) s"

text \<open>
  The walk along \<open>prev\<close> from \<open>current\<close> (the inner \<^verbatim>\<open>for\<close> loop). It ends when
  there is no predecessor, or when the predecessor \<open>next\<close> was visited before; then, if
  \<open>next\<close> is on the walk, the cycle is the walk from the first occurrence of \<open>next\<close>,
  closed by \<open>next\<close>. The result is the new \<open>visited\<close> set and the cycle, if any.
\<close>

function walk ::
  "prev_map \<Rightarrow> string set \<Rightarrow> string list \<Rightarrow> string \<Rightarrow> string set \<times> string list option" where
  "walk prev visited cycle current =
     (let next = prev_get prev current in
      if next = [] then (visited, None)
      else if next \<in> visited then
        (visited,
         if next \<in> set cycle then Some (dropWhile (\<lambda>v. v \<noteq> next) cycle @ [next]) else None)
      else walk prev (insert next visited) (cycle @ [next]) next)"
  by pat_completeness auto

termination walk
proof (relation "measure (\<lambda>(prev, visited, cycle, current). card (snd ` set prev - visited))")
  show "wf (measure (\<lambda>(prev, visited, cycle, current). card (snd ` set prev - visited)))"
    by simp
next
  fix prev :: prev_map and visited :: "string set" and cycle :: "string list"
    and current nxt :: string
  assume n: "nxt = prev_get prev current" and ne: "nxt \<noteq> []" and nv: "nxt \<notin> visited"
  have "nxt \<in> snd ` set prev"
    using n ne
    by (auto simp: prev_get_def split: option.splits dest!: map_of_SomeD intro: rev_image_eqI)
  then have "snd ` set prev - insert nxt visited \<subset> snd ` set prev - visited"
    using nv by auto
  then have "card (snd ` set prev - insert nxt visited) < card (snd ` set prev - visited)"
    by (intro psubset_card_mono) auto
  then show "((prev, insert nxt visited, cycle @ [nxt], nxt), (prev, visited, cycle, current))
      \<in> measure (\<lambda>(prev, visited, cycle, current). card (snd ` set prev - visited))"
    by simp
qed

declare walk.simps [simp del]

text \<open>
  The profit of a cycle: for each consecutive pair of tokens, the first edge of the graph
  between them contributes \<open>Exp(-Weight)\<close>; a pair with no edge contributes nothing.
\<close>

fun cycle_amount :: "(real \<Rightarrow> f64) \<Rightarrow> Edge list \<Rightarrow> f64 \<Rightarrow> string list \<Rightarrow> f64" where
  "cycle_amount ex edges amount (from # to # rest) =
     cycle_amount ex edges
       (case find (\<lambda>e. From e = from \<and> To e = to) edges of
          None \<Rightarrow> amount
        | Some e \<Rightarrow> fmul amount (Exp ex (fneg (Weight e))))
       (to # rest)"
| "cycle_amount ex edges amount path = amount"

text \<open>
  The body of the detection loop, for one edge: an edge that still relaxes starts a walk,
  and the cycle found, if any, is appended when its amount exceeds \<open>1\<close>.
\<close>

definition check_edge ::
  "(real \<Rightarrow> f64) \<Rightarrow> Edge list \<Rightarrow> dist_map \<Rightarrow> prev_map \<Rightarrow>
   string set \<times> string list list \<Rightarrow> Edge \<Rightarrow> string set \<times> string list list" where
  "check_edge ex edges dst prev s edge =
     (case s of (visited, opportunities) \<Rightarrow>
        if dist_get dst (From edge) \<noteq> PInf then
          let newDist = fadd (dist_get dst (From edge)) (Weight edge) in
          if flt newDist (dist_get dst (To edge)) then
            (case walk prev (insert (From edge) visited) [From edge] (From edge) of
               (visited', None) \<Rightarrow> (visited', opportunities)
             | (visited', Some actualCycle) \<Rightarrow>
                 if flt (Fin 1) (cycle_amount ex edges (Fin 1) actualCycle)
                 then (visited', opportunities @ [actualCycle])
                 else (visited', opportunities))
          else (visited, opportunities)
        else (visited, opportunities))"

text \<open>The body of the outer loop, for one start vertex.\<close>

definition from_start :: "(real \<Rightarrow> f64) \<Rightarrow> Graph \<Rightarrow> string list list \<Rightarrow> string \<Rightarrow> string list list" where
  "from_start ex graph opportunities start =
     (case relax_rounds (length (Vertices graph)) (Edges graph)
             (init_dist (Vertices graph) start, []) of
        (dst, prev) \<Rightarrow>
          snd (foldl (check_edge ex (Edges graph) dst prev) ({}, opportunities) (Edges graph)))"

definition bellmanFord :: "(real \<Rightarrow> f64) \<Rightarrow> Graph \<Rightarrow> string list list" where
  "bellmanFord ex graph =
     (if length (Vertices graph) = 0 then []
      else foldl (from_start ex graph) [] (Vertices graph))"

text \<open>
  One tick of \<open>detectArbitrage\<close>: what the tick logs or reports. The search runs only
  when there are at least two vertices and two edges, and its result is reported only
  when it is not empty.
\<close>

datatype tick =
  WaitingVertices nat
| WaitingEdges nat
| NoOpportunity
| Report "string list list"

definition detectArbitrage_tick :: "(real \<Rightarrow> f64) \<Rightarrow> Graph \<Rightarrow> tick" where
  "detectArbitrage_tick ex graph =
     (if length (Vertices graph) < 2 then WaitingVertices (length (Vertices graph))
      else if length (Edges graph) < 2 then WaitingEdges (length (Edges graph))
      else let opportunities = bellmanFord ex graph in
        if length opportunities > 0 then Report opportunities else NoOpportunity)"

section \<open>Notions used to state the properties\<close>

text \<open>
  The finite value \<open>round64\<close> computes before its overflow test (lemma
  \<open>round64_r64_value\<close>).
\<close>

definition r64_value :: "real \<Rightarrow> real" where
  "r64_value x = rnd_at (max (ilog2 \<bar>x\<bar> - 52) (- 1074)) x"













section \<open>Properties of the decoder\<close>

lemma sub_slice_length:
  "j \<le> length xs \<Longrightarrow> length (sub_slice xs i j) = j - i"
  by (simp add: sub_slice_def)

lemma sub_slice_take:
  assumes "j \<le> n"
  shows "sub_slice (take n xs) i j = sub_slice xs i j"
proof -
  have "take (j - i) (drop i (take n xs)) = take (j - i) (take (n - i) (drop i xs))"
    by (simp add: drop_take)
  also have "\<dots> = take (j - i) (drop i xs)"
    using assms by (simp add: min_def)
  finally show ?thesis by (simp add: sub_slice_def)
qed

lemma sub_slice_agree:
  assumes "take n xs = take n ys" and "j \<le> n"
  shows "sub_slice xs i j = sub_slice ys i j"
proof -
  have "sub_slice xs i j = sub_slice (take n xs) i j"
    using assms(2) by (simp add: sub_slice_take)
  also have "\<dots> = sub_slice (take n ys) i j"
    by (simp add: assms(1))
  also have "\<dots> = sub_slice ys i j"
    using assms(2) by (simp add: sub_slice_take)
  finally show ?thesis .
qed

text \<open>
  Claim C2, as the code has it: the decoder fails with \<open>MalformedData\<close> exactly when
  the input is shorter than 128 bytes, and produces a pool state exactly when the input
  has at least 128 bytes.
\<close>

theorem parse_fails_iff_short:
  "(parseRaydiumPoolState data = Inl MalformedData) = (length data < 128) \<and>
   (\<exists>s. parseRaydiumPoolState data = Inr s) = (128 \<le> length data)"
  by (auto simp: parseRaydiumPoolState_def)

text \<open>
  Claim C2 as stated (a minimum of 80 bytes) fails: an input of 80 bytes, which holds
  every documented field, is rejected.
\<close>

theorem parse_80_bytes_rejected:
  "length (replicate 80 (0 :: byte)) = 80 \<and>
   parseRaydiumPoolState (replicate 80 0) = Inl MalformedData"
  by (simp add: parseRaydiumPoolState_def)

text \<open>
  Claim C10: the decoded pool state depends only on bytes 0 to 79 of the input. Two
  accepted inputs (each of at least 128 bytes) that agree on their first 80 bytes decode
  to the same state.
\<close>

theorem parse_depends_on_first_80:
  assumes "128 \<le> length d1" and "128 \<le> length d2" and "take 80 d1 = take 80 d2"
  shows "parseRaydiumPoolState d1 = parseRaydiumPoolState d2 \<and>
         (\<exists>s. parseRaydiumPoolState d1 = Inr s)"
proof -
  have eq: "sub_slice d1 i j = sub_slice d2 i j" if "j \<le> 80" for i j
    using assms(3) that by (rule sub_slice_agree)
  show ?thesis
    using assms(1,2) by (simp add: parseRaydiumPoolState_def eq)
qed

theorem parse_depends_on_first_80_witness:
  "128 \<le> length (replicate 80 (1 :: byte) @ replicate 48 2) \<and>
   128 \<le> length (replicate 80 (1 :: byte) @ replicate 48 3) \<and>
   take 80 (replicate 80 (1 :: byte) @ replicate 48 2) =
     take 80 (replicate 80 (1 :: byte) @ replicate 48 3) \<and>
   replicate 80 (1 :: byte) @ replicate 48 2 \<noteq> replicate 80 (1 :: byte) @ replicate 48 3 \<and>
   parseRaydiumPoolState (replicate 80 1 @ replicate 48 2) =
     parseRaydiumPoolState (replicate 80 1 @ replicate 48 3)"
  using parse_depends_on_first_80
    [of "replicate 80 (1 :: byte) @ replicate 48 2" "replicate 80 (1 :: byte) @ replicate 48 3"]
  by simp

section \<open>Properties of rounding\<close>

lemma two_powi_pos [simp]: "(0::real) < 2 powi k"
  by (simp add: zero_less_power_int)

lemma two_powi_mono: "i \<le> j \<Longrightarrow> (2::real) powi i \<le> 2 powi j"
  by (rule power_int_increasing) simp_all

lemma two_powi_strict_mono: "i < j \<Longrightarrow> (2::real) powi i < 2 powi j"
  by (rule power_int_strict_increasing) simp_all


lemma ilog2_bounds:
  assumes "0 < x"
  shows "2 powi (ilog2 x) \<le> x \<and> x < 2 powi (ilog2 x + 1)"
proof (cases "1 \<le> x")
  case True
  define n where "n = nat \<lfloor>x\<rfloor>"
  define k where "k = floorlog 2 n"
  have n1: "1 \<le> n" using True by (simp add: n_def le_nat_floor)
  have nx: "real n \<le> x" "x < real n + 1"
    using True by (simp_all add: n_def)
  have b: "2 ^ (k - 1) \<le> n" "n < 2 ^ k"
    using floorlog_bounds [of n 2] n1 by (simp_all add: k_def)
  have k1: "1 \<le> k" using b(2) n1 by (cases k) simp_all
  have il: "ilog2 x = int k - 1"
    using True by (simp add: ilog2_def n_def k_def)
  have e1: "(2::real) powi (int k - 1) = 2 ^ (k - 1)"
    using k1 by (simp add: power_int_def nat_diff_distrib')
  have e2: "(2::real) powi (int k - 1 + 1) = 2 ^ k"
    by (simp add: power_int_def)
  have "real (2 ^ (k - 1)) \<le> real n"
    using b(1) by (simp only: of_nat_le_iff)
  then have "(2::real) ^ (k - 1) \<le> real n" by simp
  moreover have "real (Suc n) \<le> real (2 ^ k)"
    using b(2) by (simp only: of_nat_le_iff Suc_le_eq)
  then have "real n + 1 \<le> 2 ^ k" by simp
  ultimately show ?thesis
    unfolding il e1 e2 using nx by linarith
next
  case False
  define m where "m = nat (\<lceil>1 / x\<rceil> - 1)"
  define k where "k = floorlog 2 m"
  have x1: "x < 1" using False by simp
  have inv: "1 < 1 / x" using assms x1 by simp
  have c2: "2 \<le> \<lceil>1 / x\<rceil>" using inv by linarith
  have m1: "1 \<le> m" using c2 unfolding m_def by linarith
  have "0 \<le> \<lceil>1 / x\<rceil> - 1" using c2 by linarith
  then have "real (nat (\<lceil>1 / x\<rceil> - 1)) = of_int (\<lceil>1 / x\<rceil> - 1)"
    by (rule of_nat_nat)
  then have rm: "real m = of_int \<lceil>1 / x\<rceil> - 1"
    unfolding m_def by (simp only: of_int_diff of_int_1)
  have mx: "real m < 1 / x" "1 / x \<le> real m + 1"
    unfolding rm by linarith+
  have b: "2 ^ (k - 1) \<le> m" "m < 2 ^ k"
    using floorlog_bounds [of m 2] m1 by (simp_all add: k_def)
  have k1: "1 \<le> k" using b(2) m1 by (cases k) simp_all
  have il: "ilog2 x = - int k"
    using False by (simp add: ilog2_def m_def k_def)
  have e1: "(2::real) powi (- int k) = 1 / 2 ^ k"
    by (simp add: power_int_def field_simps)
  have e2: "(2::real) powi (- int k + 1) = 1 / 2 ^ (k - 1)"
    using k1 by (cases k) (simp_all add: power_int_def field_simps)
  have "real (2 ^ (k - 1)) \<le> real m"
    using b(1) by (simp only: of_nat_le_iff)
  then have r1: "(2::real) ^ (k - 1) \<le> real m" by simp
  have "real (Suc m) \<le> real (2 ^ k)"
    using b(2) by (simp only: of_nat_le_iff Suc_le_eq)
  then have r2: "real m + 1 \<le> 2 ^ k" by simp
  have "1 / x \<le> 2 ^ k" using mx(2) r2 by linarith
  then have "1 / 2 ^ k \<le> x"
    using assms by (simp add: field_simps)
  moreover have "(2::real) ^ (k - 1) < 1 / x" using mx(1) r1 by linarith
  then have "x < 1 / 2 ^ (k - 1)"
    using assms by (simp add: field_simps)
  ultimately show ?thesis unfolding il e1 e2 by linarith
qed

lemma ilog2_unique:
  assumes "2 powi k \<le> x" and "x < 2 powi (k + 1)"
  shows "ilog2 x = k"
proof -
  have pos: "0 < x" using assms(1) two_powi_pos [of k] by linarith
  note b = ilog2_bounds [OF pos]
  have "\<not> ilog2 x < k"
  proof
    assume "ilog2 x < k"
    then have "(2::real) powi (ilog2 x + 1) \<le> 2 powi k" by (intro two_powi_mono) simp
    then show False using b assms by linarith
  qed
  moreover have "\<not> k < ilog2 x"
  proof
    assume "k < ilog2 x"
    then have "(2::real) powi (k + 1) \<le> 2 powi (ilog2 x)" by (intro two_powi_mono) simp
    then show False using b assms by linarith
  qed
  ultimately show ?thesis by simp
qed

lemma ilog2_mono:
  assumes "0 < x" and "x \<le> y"
  shows "ilog2 x \<le> ilog2 y"
proof (rule ccontr)
  assume "\<not> ilog2 x \<le> ilog2 y"
  then have "(2::real) powi (ilog2 y + 1) \<le> 2 powi (ilog2 x)" by (intro two_powi_mono) simp
  moreover have "0 < y" using assms by simp
  ultimately show False
    using ilog2_bounds [OF assms(1)] ilog2_bounds [OF \<open>0 < y\<close>] assms(2) by linarith
qed


lemma rhe_lower: "\<lfloor>y\<rfloor> \<le> rhe y"
  by (simp add: rhe_def Let_def)

lemma rhe_upper: "rhe y \<le> \<lfloor>y\<rfloor> + 1"
  by (simp add: rhe_def Let_def)

lemma rhe_err: "\<bar>of_int (rhe y) - y\<bar> \<le> 1 / 2"
proof -
  have f: "of_int \<lfloor>y\<rfloor> \<le> y" "y < of_int \<lfloor>y\<rfloor> + 1"
    by linarith+
  show ?thesis
    unfolding rhe_def Let_def using f by (auto simp: abs_le_iff)
qed

lemma rhe_of_int [simp]: "rhe (of_int k) = k"
  by (simp add: rhe_def)

lemma rhe_zero [simp]: "rhe 0 = 0"
  using rhe_of_int [of 0] by simp

lemma rhe_mono:
  assumes "y \<le> z"
  shows "rhe y \<le> rhe z"
proof (cases "\<lfloor>y\<rfloor> = \<lfloor>z\<rfloor>")
  case True
  then show ?thesis
    unfolding rhe_def Let_def using assms by auto
next
  case False
  then have "\<lfloor>y\<rfloor> + 1 \<le> \<lfloor>z\<rfloor>"
    using floor_mono [OF assms] by linarith
  then show ?thesis
    using rhe_upper [of y] rhe_lower [of z] by linarith
qed

lemma rnd_at_nonneg_eq:
  assumes "0 \<le> x"
  shows "rnd_at e x = of_int (rhe (x / 2 powi e)) * 2 powi e"
proof (cases "x = 0")
  case True
  then show ?thesis by (simp add: rnd_at_def)
next
  case False
  then have "0 < x" using assms by simp
  then show ?thesis by (simp add: rnd_at_def)
qed


lemma rnd_at_mono_nonneg:
  assumes "0 \<le> x" and "x \<le> y"
  shows "rnd_at e x \<le> rnd_at e y"
proof -
  have "x / 2 powi e \<le> y / 2 powi e"
    using assms(2) by (simp add: divide_right_mono)
  then have "rhe (x / 2 powi e) \<le> rhe (y / 2 powi e)"
    by (rule rhe_mono)
  then have "(of_int (rhe (x / 2 powi e)) :: real) \<le> of_int (rhe (y / 2 powi e))"
    by simp
  then have "of_int (rhe (x / 2 powi e)) * 2 powi e \<le> of_int (rhe (y / 2 powi e)) * (2::real) powi e"
    by (rule mult_right_mono) simp
  then show ?thesis
    using assms by (simp add: rnd_at_nonneg_eq)
qed

lemma rnd_at_exact:
  assumes "0 \<le> j"
  shows "rnd_at e (of_int j * 2 powi e) = of_int j * 2 powi e"
proof -
  have "0 \<le> (of_int j :: real) * 2 powi e" using assms by simp
  then show ?thesis by (simp add: rnd_at_nonneg_eq)
qed


lemma rnd_at_err_nonneg:
  assumes "0 \<le> x"
  shows "\<bar>rnd_at e x - x\<bar> \<le> 2 powi e / 2"
proof -
  define y where "y = x / 2 powi e"
  have x: "x = y * 2 powi e" by (simp add: y_def)
  have "rnd_at e x - x = (of_int (rhe y) - y) * 2 powi e"
    using assms by (simp add: rnd_at_nonneg_eq y_def algebra_simps)
  then have "\<bar>rnd_at e x - x\<bar> = \<bar>of_int (rhe y) - y\<bar> * 2 powi e"
    by (simp add: abs_mult)
  also have "\<dots> \<le> (1 / 2) * 2 powi e"
    by (rule mult_right_mono [OF rhe_err]) simp
  finally show ?thesis by simp
qed

lemma two_powi_multiple:
  assumes "e \<le> k"
  shows "(2::real) powi k = of_int (2 ^ nat (k - e)) * 2 powi e"
proof -
  have "(2::real) powi k = 2 powi (k - e) * 2 powi e"
    by (simp add: power_int_add [symmetric])
  also have "(2::real) powi (k - e) = 2 ^ nat (k - e)"
    using assms by (simp add: power_int_def)
  finally show ?thesis by simp
qed

lemma rnd_at_le_power:
  assumes "0 \<le> x" and "x \<le> 2 powi k" and "e \<le> k"
  shows "rnd_at e x \<le> 2 powi k"
proof -
  have "rnd_at e x \<le> rnd_at e (2 powi k)"
    using assms(1,2) by (rule rnd_at_mono_nonneg)
  also have "rnd_at e (2 powi k) = 2 powi k"
    unfolding two_powi_multiple [OF assms(3)] by (rule rnd_at_exact) simp
  finally show ?thesis .
qed

lemma rnd_at_ge_power:
  assumes "2 powi k \<le> x" and "e \<le> k"
  shows "2 powi k \<le> rnd_at e x"
proof -
  have "rnd_at e (2 powi k) = 2 powi k"
    unfolding two_powi_multiple [OF assms(2)] by (rule rnd_at_exact) simp
  moreover have "rnd_at e (2 powi k) \<le> rnd_at e x"
    using assms(1) by (intro rnd_at_mono_nonneg) simp_all
  ultimately show ?thesis by simp
qed


lemma rne_pos_eq:
  "0 < x \<Longrightarrow> rne p x = rnd_at (ilog2 x - (int p - 1)) x"
  by (simp add: rne_def)

lemma rne_ge:
  assumes "0 < x" and "1 \<le> p"
  shows "2 powi (ilog2 x) \<le> rne p x"
  unfolding rne_pos_eq [OF assms(1)]
  using ilog2_bounds [OF assms(1)] assms(2) by (intro rnd_at_ge_power) simp_all

lemma rne_le:
  assumes "0 < x" and "1 \<le> p"
  shows "rne p x \<le> 2 powi (ilog2 x + 1)"
  unfolding rne_pos_eq [OF assms(1)]
  using ilog2_bounds [OF assms(1)] assms by (intro rnd_at_le_power) simp_all

lemma rne_pos:
  assumes "0 < x" and "1 \<le> p"
  shows "0 < rne p x"
  using rne_ge [OF assms] two_powi_pos [of "ilog2 x"] by linarith

lemma rne_mono:
  assumes "0 < x" and "x \<le> y" and "1 \<le> p"
  shows "rne p x \<le> rne p y"
proof -
  have y: "0 < y" using assms by simp
  have k: "ilog2 x \<le> ilog2 y" using assms(1,2) by (rule ilog2_mono)
  show ?thesis
  proof (cases "ilog2 x = ilog2 y")
    case True
    show ?thesis
      unfolding rne_pos_eq [OF assms(1)] rne_pos_eq [OF y] True
      using assms(1,2) by (intro rnd_at_mono_nonneg) simp_all
  next
    case False
    then have "ilog2 x + 1 \<le> ilog2 y" using k by simp
    then have "(2::real) powi (ilog2 x + 1) \<le> 2 powi (ilog2 y)" by (rule two_powi_mono)
    then show ?thesis
      using rne_le [OF assms(1,3)] rne_ge [OF y assms(3)] by linarith
  qed
qed

lemma rne_err:
  assumes "0 < x"
  shows "\<bar>rne p x - x\<bar> \<le> x * 2 powi (- int p)"
proof -
  have "\<bar>rne p x - x\<bar> \<le> 2 powi (ilog2 x - (int p - 1)) / 2"
    unfolding rne_pos_eq [OF assms] using assms by (intro rnd_at_err_nonneg) simp
  also have "2 powi (ilog2 x - (int p - 1)) / 2 = 2 powi (ilog2 x) * (2::real) powi (- int p)"
  proof -
    have "ilog2 x - (int p - 1) = (ilog2 x + - int p) + 1" by simp
    then have "(2::real) powi (ilog2 x - (int p - 1)) = 2 powi ((ilog2 x + - int p) + 1)"
      by (rule arg_cong)
    also have "\<dots> = 2 powi (ilog2 x + - int p) * 2"
      using power_int_add [of "2::real" "ilog2 x + - int p" 1] by simp
    also have "(2::real) powi (ilog2 x + - int p) = 2 powi (ilog2 x) * 2 powi (- int p)"
      using power_int_add [of "2::real" "ilog2 x" "- int p"] by simp
    finally show ?thesis by simp
  qed
  also have "\<dots> \<le> x * 2 powi (- int p)"
    using ilog2_bounds [OF assms] by (intro mult_right_mono) simp_all
  finally show ?thesis .
qed

lemma ilog2_ge:
  assumes "2 powi k \<le> x"
  shows "k \<le> ilog2 x"
proof -
  have "ilog2 (2 powi k) = k"
    by (rule ilog2_unique) (simp_all add: two_powi_strict_mono)
  moreover have "ilog2 (2 powi k) \<le> ilog2 x"
    using assms by (intro ilog2_mono) simp_all
  ultimately show ?thesis by simp
qed

lemma ilog2_less:
  assumes "0 < x" and "x < 2 powi k"
  shows "ilog2 x < k"
proof (rule ccontr)
  assume "\<not> ilog2 x < k"
  then have "(2::real) powi k \<le> 2 powi (ilog2 x)" by (intro two_powi_mono) simp
  then show False using ilog2_bounds [OF assms(1)] assms(2) by linarith
qed

lemma round64_normal:
  assumes "2 powi (- 1022) \<le> x" and "x < 2 powi 1023"
  shows "round64 x = Fin (rne 53 x)"
proof -
  have pos: "0 < x" using assms(1) two_powi_pos [of "- 1022"] by linarith
  have k1: "- 1022 \<le> ilog2 x" using assms(1) by (rule ilog2_ge)
  have k2: "ilog2 x < 1023" using pos assms(2) by (rule ilog2_less)
  have e: "max (ilog2 \<bar>x\<bar> - 52) (- 1074) = ilog2 x - (int 53 - 1)"
    using pos k1 by simp
  have r: "rnd_at (ilog2 x - (int 53 - 1)) x = rne 53 x"
    using pos by (simp add: rne_def)
  have "rne 53 x \<le> 2 powi (ilog2 x + 1)" using pos by (intro rne_le) simp_all
  also have "\<dots> \<le> 2 powi 1023" using k2 by (intro two_powi_mono) simp
  also have "\<dots> < 2 powi 1024" by (intro two_powi_strict_mono) simp
  finally have up: "rne 53 x < 2 powi 1024" .
  have "0 < rne 53 x" using pos by (intro rne_pos) simp_all
  then have "\<not> 2 powi 1024 \<le> \<bar>rne 53 x\<bar>" using up by simp
  then have nb: "\<not> 2 ^ 1024 \<le> \<bar>rne 53 x\<bar>" unfolding power_int_numeral .
  have "x \<noteq> 0" using pos by simp
  then have "round64 x =
      (let y = rnd_at (max (ilog2 \<bar>x\<bar> - 52) (- 1074)) x in
        if 2 ^ 1024 \<le> \<bar>y\<bar> then (if 0 < x then PInf else NInf) else Fin y)"
    unfolding round64_def by (simp only: if_False)
  also have "\<dots> = (if 2 ^ 1024 \<le> \<bar>rne 53 x\<bar> then (if 0 < x then PInf else NInf)
      else Fin (rne 53 x))"
    unfolding e r Let_def ..
  also have "\<dots> = Fin (rne 53 x)"
    using nb by (simp only: if_False)
  finally show ?thesis .
qed

lemma rne_range:
  assumes "2 powi lo \<le> x" and "x \<le> 2 powi hi" and "1 \<le> p"
  shows "2 powi lo \<le> rne p x \<and> rne p x \<le> 2 powi hi"
proof -
  have pos: "0 < x" using assms(1) two_powi_pos [of lo] by linarith
  have "lo \<le> ilog2 x" using assms(1) by (rule ilog2_ge)
  then have "(2::real) powi lo \<le> 2 powi (ilog2 x)" by (rule two_powi_mono)
  then have l: "2 powi lo \<le> rne p x" using rne_ge [OF pos assms(3)] by linarith
  have u: "rne p x \<le> 2 powi hi"
  proof (cases "x = 2 powi hi")
    case True
    have "ilog2 x = hi" unfolding True
      by (rule ilog2_unique) (simp_all add: two_powi_strict_mono)
    then have "rne p x = rnd_at (hi - (int p - 1)) (2 powi hi)"
      using pos by (simp add: rne_def True)
    also have "\<dots> \<le> 2 powi hi"
      using assms(3) by (intro rnd_at_le_power) simp_all
    finally show ?thesis .
  next
    case False
    then have "x < 2 powi hi" using assms(2) by simp
    then have "ilog2 x + 1 \<le> hi" using ilog2_less [OF pos, of hi] by simp
    then have "(2::real) powi (ilog2 x + 1) \<le> 2 powi hi" by (rule two_powi_mono)
    then show ?thesis using rne_le [OF pos assms(3)] by linarith
  qed
  show ?thesis using l u by simp
qed

lemma rne_eval:
  assumes "2 powi k \<le> x" and "x < 2 powi (k + 1)"
  shows "rne p x = of_int (rhe (x / 2 powi (k - (int p - 1)))) * 2 powi (k - (int p - 1))"
proof -
  have pos: "0 < x" using assms(1) two_powi_pos [of k] by linarith
  have "ilog2 x = k" using assms by (rule ilog2_unique)
  then show ?thesis using pos by (simp add: rne_def rnd_at_nonneg_eq)
qed

lemma rhe_eval:
  assumes "\<bar>y - of_int n\<bar> < 1 / 2"
  shows "rhe y = n"
proof -
  have "\<bar>of_int (rhe y) - y\<bar> \<le> 1 / 2" by (rule rhe_err)
  then have "\<bar>(of_int (rhe y) :: real) - of_int n\<bar> < 1" using assms by linarith
  then have "\<bar>(of_int (rhe y - n) :: real)\<bar> < 1" by simp
  then have "\<bar>rhe y - n\<bar> < 1" by (simp only: of_int_abs [symmetric] of_int_less_1_iff)
  then show ?thesis by simp
qed

lemma fee_value: "fee = Fin (3458764513820541 / 1152921504606846976)"
proof -
  have r: "rne 53 (3 / 1000) = 3458764513820541 / 1152921504606846976"
    by (subst rne_eval [of "- 9"]) (simp_all add: rhe_def Let_def)
  have "round64 (3 / 1000) = Fin (rne 53 (3 / 1000))"
    by (rule round64_normal) simp_all
  then show ?thesis by (simp add: fee_def r)
qed

section \<open>Properties of the pool prices\<close>

lemma one_minus_fee: "fsub (Fin 1) fee = Fin (8980177656976769 / 9007199254740992)"
proof -
  let ?x = "1 + - (3458764513820541 / 1152921504606846976) :: real"
  have r: "rne 53 ?x = 8980177656976769 / 9007199254740992"
    by (subst rne_eval [of "- 1"]) (simp_all add: rhe_def Let_def)
  have "round64 ?x = Fin (rne 53 ?x)"
    by (rule round64_normal) simp_all
  then show ?thesis by (simp only: fsub_def fee_value fneg.simps fadd.simps r)
qed

lemma uint64_real_range:
  fixes a :: uint64
  assumes "a \<noteq> 0"
  shows "1 \<le> real (unat a) \<and> real (unat a) \<le> 2 powi 64"
proof -
  have "0 < unat a" using assms by (simp add: unat_gt_0)
  then have "Suc 0 \<le> unat a" by simp
  then have "real (Suc 0) \<le> real (unat a)" by (simp only: of_nat_le_iff)
  then have l: "1 \<le> real (unat a)" by (simp del: of_nat_unat)
  have "unat a < 2 ^ LENGTH(64)" by (rule unsigned_less)
  then have "unat a < 2 ^ 64" by simp
  then have "real (unat a) < real (2 ^ 64)" by (simp only: of_nat_less_iff)
  then have "real (unat a) \<le> 2 powi 64" by (simp del: of_nat_unat)
  then show ?thesis using l by (simp del: of_nat_unat)
qed

lemma uint64_quotient_range:
  fixes a b :: uint64
  assumes "a \<noteq> 0" and "b \<noteq> 0"
  shows "2 powi (- 64) \<le> real (unat b) / real (unat a) \<and>
         real (unat b) / real (unat a) \<le> 2 powi 64"
proof -
  note A = uint64_real_range [OF assms(1)] and B = uint64_real_range [OF assms(2)]
  have Apos: "0 < real (unat a)" using A by linarith
  have "1 / 2 powi 64 \<le> 1 / real (unat a)"
    using A Apos by (intro divide_left_mono) (simp_all del: of_nat_unat)
  also have "\<dots> \<le> real (unat b) / real (unat a)"
    using B Apos by (intro divide_right_mono) (simp_all del: of_nat_unat)
  finally have l: "2 powi (- 64) \<le> real (unat b) / real (unat a)"
    by (simp add: power_int_minus field_simps del: of_nat_unat)
  have "real (unat b) / real (unat a) \<le> real (unat b) / 1"
    using A B by (intro divide_left_mono) (simp_all del: of_nat_unat)
  then have u: "real (unat b) / real (unat a) \<le> 2 powi 64" using B by (simp del: of_nat_unat)
  show ?thesis using l u by (simp del: of_nat_unat)
qed

lemma price_chain:
  assumes "2 powi (- 64) \<le> q" and "q \<le> 2 powi 64"
  shows "fmul (round64 (rne 64 q)) (fsub (Fin 1) fee) = Fin (price_of_quotient q) \<and>
         2 powi (- 65) \<le> price_of_quotient q \<and> price_of_quotient q \<le> 2 powi 64"
proof -
  let ?c = "8980177656976769 / 9007199254740992 :: real"
  define r1 where "r1 = rne 64 q"
  define r2 where "r2 = rne 53 r1"
  have b1: "2 powi (- 64) \<le> r1 \<and> r1 \<le> 2 powi 64"
    unfolding r1_def using assms by (intro rne_range) simp_all
  have n1: "round64 r1 = Fin r2"
    unfolding r2_def
  proof (rule round64_normal)
    have "(2::real) powi (- 1022) \<le> 2 powi (- 64)" by (intro two_powi_mono) simp
    then show "2 powi (- 1022) \<le> r1" using b1 by linarith
    have "(2::real) powi 64 < 2 powi 1023" by (intro two_powi_strict_mono) simp
    then show "r1 < 2 powi 1023" using b1 by linarith
  qed
  have b2: "2 powi (- 64) \<le> r2 \<and> r2 \<le> 2 powi 64"
    unfolding r2_def using b1 by (intro rne_range) simp_all
  have r2pos: "0 < r2" using b2 two_powi_pos [of "- 64"] by linarith
  have "r2 * (1 / 2) \<le> r2 * ?c" using r2pos by (intro mult_left_mono) simp_all
  moreover have "(2::real) powi (- 65) = 2 powi (- 64) * (1 / 2)"
    using power_int_add [of "2::real" "- 64" "- 1"] by simp
  ultimately have l3: "2 powi (- 65) \<le> r2 * ?c" using b2 by simp
  have "r2 * ?c \<le> r2 * 1" using r2pos by (intro mult_left_mono) simp_all
  then have u3: "r2 * ?c \<le> 2 powi 64" using b2 by simp
  have n3: "round64 (r2 * ?c) = Fin (rne 53 (r2 * ?c))"
  proof (rule round64_normal)
    have "(2::real) powi (- 1022) \<le> 2 powi (- 65)" by (intro two_powi_mono) simp
    then show "2 powi (- 1022) \<le> r2 * ?c" using l3 by linarith
    have "(2::real) powi 64 < 2 powi 1023" by (intro two_powi_strict_mono) simp
    then show "r2 * ?c < 2 powi 1023" using u3 by linarith
  qed
  have p: "price_of_quotient q = rne 53 (r2 * ?c)"
    by (simp add: price_of_quotient_def r1_def r2_def)
  have "fmul (round64 (rne 64 q)) (fsub (Fin 1) fee) = Fin (price_of_quotient q)"
    unfolding one_minus_fee r1_def [symmetric] n1 fmul.simps n3 p ..
  moreover have "2 powi (- 65) \<le> rne 53 (r2 * ?c) \<and> rne 53 (r2 * ?c) \<le> 2 powi 64"
    using l3 u3 by (intro rne_range) simp_all
  ultimately show ?thesis unfolding p by simp
qed

lemma price_of_quotient_pos:
  assumes "2 powi (- 64) \<le> q" and "q \<le> 2 powi 64"
  shows "0 < price_of_quotient q"
  using price_chain [OF assms] two_powi_pos [of "- 65"] by linarith

lemma poolPrices_nonzero:
  assumes "a \<noteq> 0" and "b \<noteq> 0"
  shows "poolPrices a b =
     Inr (Fin (price_of_quotient (real (unat b) / real (unat a))),
          Fin (price_of_quotient (real (unat a) / real (unat b))))"
proof -
  have A: "real (unat a) \<noteq> 0" using uint64_real_range [OF assms(1)] by linarith
  have B: "real (unat b) \<noteq> 0" using uint64_real_range [OF assms(2)] by linarith
  note c1 = price_chain [OF uint64_quotient_range [OF assms(1) assms(2), THEN conjunct1]
      uint64_quotient_range [OF assms(1) assms(2), THEN conjunct2], THEN conjunct1]
  note c2 = price_chain [OF uint64_quotient_range [OF assms(2) assms(1), THEN conjunct1]
      uint64_quotient_range [OF assms(2) assms(1), THEN conjunct2], THEN conjunct1]
  show ?thesis
    using A B by (simp add: poolPrices_def SetUint64_def c1 c2 del: of_nat_unat)
qed

lemma poolPrices_both_zero: "poolPrices 0 0 = Inl ErrNaN"
  by (simp add: poolPrices_def SetUint64_def)

lemma round64_zero: "round64 0 = Fin 0"
  by (simp add: round64_def)

lemma poolPrices_base_zero:
  assumes "b \<noteq> 0"
  shows "poolPrices 0 b = Inr (PInf, Fin 0)"
proof -
  have B: "real (unat b) \<noteq> 0" using uint64_real_range [OF assms] by linarith
  show ?thesis
    using B by (simp add: poolPrices_def SetUint64_def one_minus_fee rne_def round64_zero
        del: of_nat_unat)
qed

lemma poolPrices_quote_zero:
  assumes "a \<noteq> 0"
  shows "poolPrices a 0 = Inr (Fin 0, PInf)"
proof -
  have A: "real (unat a) \<noteq> 0" using uint64_real_range [OF assms] by linarith
  show ?thesis
    using A by (simp add: poolPrices_def SetUint64_def one_minus_fee rne_def round64_zero
        del: of_nat_unat)
qed

section \<open>Properties of the upsert\<close>

lemma update_both_zero:
  assumes "BaseReserve st = 0" and "QuoteReserve st = 0"
  shows "updateGraphWithPoolState lg g st baseToken quoteToken = Inl ErrNaN"
  using assms by (simp add: updateGraphWithPoolState_def poolPrices_both_zero)

lemma update_base_zero:
  assumes "BaseReserve st = 0" and "QuoteReserve st \<noteq> 0"
  shows "updateGraphWithPoolState lg g st baseToken quoteToken = Inr g"
  using assms
  by (simp add: updateGraphWithPoolState_def poolPrices_base_zero IsInf_def)

lemma update_quote_zero:
  assumes "BaseReserve st \<noteq> 0" and "QuoteReserve st = 0"
  shows "updateGraphWithPoolState lg g st baseToken quoteToken = Inr g"
  using assms
  by (simp add: updateGraphWithPoolState_def poolPrices_quote_zero IsInf_def)

lemma update_nonzero:
  assumes "BaseReserve st \<noteq> 0" and "QuoteReserve st \<noteq> 0"
  shows "updateGraphWithPoolState lg g st baseToken quoteToken =
     Inr (g\<lparr>Vertices :=
               (if foundVertex (Vertices g) baseToken quoteToken then Vertices g
                else Vertices g @ [baseToken, quoteToken]),
             Edges := Edges g @
               [\<lparr>From = baseToken, To = quoteToken,
                 Weight = Fin (- lg (price_of_quotient
                   (real (unat (QuoteReserve st)) / real (unat (BaseReserve st))))),
                 Rate = Fin (price_of_quotient
                   (real (unat (QuoteReserve st)) / real (unat (BaseReserve st))))\<rparr>,
                \<lparr>From = quoteToken, To = baseToken,
                 Weight = Fin (- lg (price_of_quotient
                   (real (unat (BaseReserve st)) / real (unat (QuoteReserve st))))),
                 Rate = Fin (price_of_quotient
                   (real (unat (BaseReserve st)) / real (unat (QuoteReserve st))))\<rparr>]\<rparr>)"
proof -
  note r1 = uint64_quotient_range [OF assms(1) assms(2)]
  note r2 = uint64_quotient_range [OF assms(2) assms(1)]
  have p1: "0 < price_of_quotient (real (unat (QuoteReserve st)) / real (unat (BaseReserve st)))"
    using r1 by (intro price_of_quotient_pos) simp_all
  have p2: "0 < price_of_quotient (real (unat (BaseReserve st)) / real (unat (QuoteReserve st)))"
    using r2 by (intro price_of_quotient_pos) simp_all
  show ?thesis
    using p1 p2
    by (simp add: updateGraphWithPoolState_def poolPrices_nonzero [OF assms] IsInf_def
        IsNaN_def addEdge_def Let_def del: of_nat_unat)
qed

section \<open>Claims about the upsert\<close>

text \<open>
  Claim C7 fails when both reserves are zero: the first quotient panics, before the
  validity check is reached, and the calling task fails.
\<close>

theorem zero_reserves_panic:
  "updateGraphWithPoolState lg g (st\<lparr>BaseReserve := 0, QuoteReserve := 0\<rparr>) baseToken quoteToken =
     Inl ErrNaN"
  by (rule update_both_zero) simp_all

text \<open>
  When exactly one reserve is zero, one price is zero and the other infinite, and the
  update is discarded: the graph is returned unchanged.
\<close>

theorem one_zero_reserve_discarded:
  assumes "(BaseReserve st = 0) \<noteq> (QuoteReserve st = 0)"
  shows "updateGraphWithPoolState lg g st baseToken quoteToken = Inr g"
  using assms update_base_zero update_quote_zero by blast

theorem one_zero_reserve_discarded_witness:
  "(BaseReserve (reserves 0 10000) = 0) \<noteq> (QuoteReserve (reserves 0 10000) = 0) \<and>
   updateGraphWithPoolState ln \<lparr>Vertices = [''USDC''], Edges = []\<rparr> (reserves 0 10000)
     ''USDC'' ''SOL'' = Inr \<lparr>Vertices = [''USDC''], Edges = []\<rparr>"
  using one_zero_reserve_discarded [of "reserves 0 10000" ln
      "\<lparr>Vertices = [''USDC''], Edges = []\<rparr>" "''USDC''" "''SOL''"]
  by (simp add: reserves_def)

text \<open>
  Claim C1 fails: a second upsert of the same pool appends two more edges, and the
  graph then holds two edges from USDC to SOL.
\<close>

theorem upsert_twice_accumulates:
  "\<exists>g1 g2.
     updateGraphWithPoolState lg \<lparr>Vertices = [], Edges = []\<rparr> (reserves 1000000 10000)
       ''USDC'' ''SOL'' = Inr g1 \<and>
     updateGraphWithPoolState lg g1 (reserves 1000200 9998) ''USDC'' ''SOL'' = Inr g2 \<and>
     map (\<lambda>e. (From e, To e)) (Edges g2) =
       [(''USDC'', ''SOL''), (''SOL'', ''USDC''), (''USDC'', ''SOL''), (''SOL'', ''USDC'')] \<and>
     length (filter (\<lambda>e. From e = ''USDC'' \<and> To e = ''SOL'') (Edges g2)) = 2"
proof -
  have n1: "BaseReserve (reserves 1000000 10000) \<noteq> 0" "QuoteReserve (reserves 1000000 10000) \<noteq> 0"
    by (simp_all add: reserves_def)
  have n2: "BaseReserve (reserves 1000200 9998) \<noteq> 0" "QuoteReserve (reserves 1000200 9998) \<noteq> 0"
    by (simp_all add: reserves_def)
  show ?thesis
    unfolding update_nonzero [OF n1] update_nonzero [OF n2] by simp
qed

text \<open>
  Claim C3 fails: after the two monitored pools USDC-SOL and SOL-GRASS are upserted,
  GRASS is not a vertex, because SOL already is one.
\<close>

theorem second_pool_token_missing:
  "\<exists>g1 g2.
     updateGraphWithPoolState lg \<lparr>Vertices = [], Edges = []\<rparr> (reserves 1000000 10000)
       ''USDC'' ''SOL'' = Inr g1 \<and>
     updateGraphWithPoolState lg g1 (reserves 10000 5000000) ''SOL'' ''GRASS'' = Inr g2 \<and>
     length (Edges g2) = 4 \<and>
     Vertices g2 = [''USDC'', ''SOL''] \<and>
     ''GRASS'' \<notin> set (Vertices g2)"
proof -
  have n1: "BaseReserve (reserves 1000000 10000) \<noteq> 0" "QuoteReserve (reserves 1000000 10000) \<noteq> 0"
    by (simp_all add: reserves_def)
  have n2: "BaseReserve (reserves 10000 5000000) \<noteq> 0" "QuoteReserve (reserves 10000 5000000) \<noteq> 0"
    by (simp_all add: reserves_def)
  show ?thesis
    unfolding update_nonzero [OF n1] update_nonzero [OF n2] by simp
qed

section \<open>Accuracy and monotonicity of the prices\<close>

lemma rne_bounds_rel:
  assumes "0 < x"
  shows "x * (1 - 2 powi (- int p)) \<le> rne p x \<and> rne p x \<le> x * (1 + 2 powi (- int p))"
  using rne_err [OF assms, of p] by (simp add: abs_le_iff algebra_simps)

lemma price_of_quotient_err:
  assumes "2 powi (- 64) \<le> q" and "q \<le> 2 powi 64"
  shows "\<bar>price_of_quotient q - q * (997 / 1000)\<bar> \<le> 2 powi (- 51) * (q * (997 / 1000))"
proof -
  define c :: real where "c = 8980177656976769 / 9007199254740992"
  define lo1 :: real where "lo1 = 1 - 1 / 18446744073709551616"
  define hi1 :: real where "hi1 = 1 + 1 / 18446744073709551616"
  define lo2 :: real where "lo2 = 1 - 1 / 9007199254740992"
  define hi2 :: real where "hi2 = 1 + 1 / 9007199254740992"
  define r1 where "r1 = rne 64 q"
  define r2 where "r2 = rne 53 r1"
  define r3 where "r3 = rne 53 (r2 * c)"
  have p: "price_of_quotient q = r3"
    by (simp add: price_of_quotient_def r1_def r2_def r3_def c_def)
  have q: "0 < q" using assms(1) two_powi_pos [of "- 64"] by linarith
  have r1: "0 < r1" unfolding r1_def using q by (intro rne_pos) simp_all
  have r2: "0 < r2" unfolding r2_def using r1 by (intro rne_pos) simp_all
  have cpos: "0 < c" by (simp add: c_def)
  have r2c: "0 < r2 * c" using r2 cpos by simp
  have nn: "0 \<le> lo1" "0 \<le> lo2" "0 \<le> hi1" "0 \<le> hi2"
    by (simp_all add: lo1_def lo2_def hi1_def hi2_def)
  have e1: "q * lo1 \<le> r1 \<and> r1 \<le> q * hi1"
    using rne_bounds_rel [OF q, of 64] by (simp add: r1_def lo1_def hi1_def)
  have e2: "r1 * lo2 \<le> r2 \<and> r2 \<le> r1 * hi2"
    using rne_bounds_rel [OF r1, of 53] by (simp add: r2_def lo2_def hi2_def)
  have e3: "(r2 * c) * lo2 \<le> r3 \<and> r3 \<le> (r2 * c) * hi2"
    using rne_bounds_rel [OF r2c, of 53] by (simp add: r3_def lo2_def hi2_def)
  have "r1 * hi2 \<le> (q * hi1) * hi2"
    using e1 nn by (intro mult_right_mono) simp_all
  then have "r2 \<le> q * hi1 * hi2" using e2 by linarith
  then have "r2 * (c * hi2) \<le> (q * hi1 * hi2) * (c * hi2)"
    using cpos nn by (intro mult_right_mono) simp_all
  then have u: "r3 \<le> q * (hi1 * hi2 * c * hi2)"
    using e3 by (simp add: mult.assoc)
  have "(q * lo1) * lo2 \<le> r1 * lo2"
    using e1 nn by (intro mult_right_mono) simp_all
  then have "q * lo1 * lo2 \<le> r2" using e2 by linarith
  then have "(q * lo1 * lo2) * (c * lo2) \<le> r2 * (c * lo2)"
    using cpos nn by (intro mult_right_mono) simp_all
  then have l: "q * (lo1 * lo2 * c * lo2) \<le> r3"
    using e3 by (simp add: mult.assoc)
  have nu: "hi1 * hi2 * c * hi2 \<le> 997 / 1000 * (1 + 1 / 2251799813685248)"
    by (simp add: hi1_def hi2_def c_def)
  have nl: "997 / 1000 * (1 - 1 / 2251799813685248) \<le> lo1 * lo2 * c * lo2"
    by (simp add: lo1_def lo2_def c_def)
  have "q * (hi1 * hi2 * c * hi2) \<le> q * (997 / 1000 * (1 + 1 / 2251799813685248))"
    using q nu by (intro mult_left_mono) simp_all
  then have U: "r3 \<le> q * (997 / 1000 * (1 + 1 / 2251799813685248))"
    using u by linarith
  have "q * (997 / 1000 * (1 - 1 / 2251799813685248)) \<le> q * (lo1 * lo2 * c * lo2)"
    using q nl by (intro mult_left_mono) simp_all
  then have L: "q * (997 / 1000 * (1 - 1 / 2251799813685248)) \<le> r3"
    using l by linarith
  define t where "t = q * (997 / 1000)"
  have eU: "q * (997 / 1000 * (1 + 1 / 2251799813685248)) = t + (1 / 2251799813685248) * t"
    by (simp add: t_def algebra_simps)
  have eL: "q * (997 / 1000 * (1 - 1 / 2251799813685248)) = t - (1 / 2251799813685248) * t"
    by (simp add: t_def algebra_simps)
  have pw: "(2::real) powi (- 51) = 1 / 2251799813685248" by simp
  have "\<bar>r3 - t\<bar> \<le> (1 / 2251799813685248) * t"
    using U L unfolding eU eL by linarith
  then show ?thesis
    unfolding p pw t_def .
qed

lemma price_of_quotient_mono:
  assumes "0 < q" and "q \<le> q'"
  shows "price_of_quotient q \<le> price_of_quotient q'"
proof -
  have q': "0 < q'" using assms by simp
  have a: "rne 64 q \<le> rne 64 q'" by (rule rne_mono [OF assms]) simp
  have ap: "0 < rne 64 q" by (rule rne_pos [OF assms(1)]) simp
  have b: "rne 53 (rne 64 q) \<le> rne 53 (rne 64 q')" by (rule rne_mono [OF ap a]) simp
  have bp: "0 < rne 53 (rne 64 q)" by (rule rne_pos [OF ap]) simp
  let ?c = "8980177656976769 / 9007199254740992 :: real"
  have c: "rne 53 (rne 64 q) * ?c \<le> rne 53 (rne 64 q') * ?c"
    using b by (intro mult_right_mono) simp_all
  have cp: "0 < rne 53 (rne 64 q) * ?c" using bp by simp
  show ?thesis
    unfolding price_of_quotient_def by (rule rne_mono [OF cp c]) simp
qed

section \<open>Evaluating the rounding on numerals\<close>

lemma floorlog2_numeral: "floorlog 2 (numeral n) = floorlog 2 (numeral n div 2) + 1"
  by (subst compute_floorlog) simp

lemma floorlog2_Suc_0: "floorlog 2 (Suc 0) = 1"
  by (subst compute_floorlog) (simp add: compute_floorlog)

lemma floorlog2_0: "floorlog 2 0 = 0"
  by (simp add: compute_floorlog)

lemmas rne_simps =
  rne_def rnd_at_def ilog2_def rhe_def Let_def floorlog2_numeral floorlog2_Suc_0 floorlog2_0

lemma price_scenario_A_base_to_quote:
  "price_of_quotient (1 / 100) = 1436828425116283 / 144115188075855872"
  by (simp add: price_of_quotient_def rne_simps)

lemma price_scenario_A_quote_to_base:
  "price_of_quotient 100 = 7015763794513101 / 70368744177664"
  by (simp add: price_of_quotient_def rne_simps)

section \<open>Claims about the rates\<close>

lemma fle_Fin: "x \<le> y \<Longrightarrow> fle (Fin x) (Fin y)"
  by (auto simp: fle_def)

text \<open>
  Claim C6, as the code has it: for reserves that are not zero, the upsert appends the
  two directed edges, and each stored rate is within a relative error of \<open>2\<^sup>-\<^sup>5\<^sup>1\<close> of
  the exact value \<open>(reserveB / reserveA) * (1 - 0.003)\<close>, the fee being the constant
  0.003.
\<close>

theorem stored_rates:
  assumes "BaseReserve st \<noteq> 0" and "QuoteReserve st \<noteq> 0"
  shows "\<exists>g' rAB rBA.
     updateGraphWithPoolState lg g st baseToken quoteToken = Inr g' \<and>
     poolPrices (BaseReserve st) (QuoteReserve st) = Inr (Fin rAB, Fin rBA) \<and>
     Edges g' = Edges g @
       [\<lparr>From = baseToken, To = quoteToken, Weight = Fin (- lg rAB), Rate = Fin rAB\<rparr>,
        \<lparr>From = quoteToken, To = baseToken, Weight = Fin (- lg rBA), Rate = Fin rBA\<rparr>] \<and>
     \<bar>rAB - real (unat (QuoteReserve st)) / real (unat (BaseReserve st)) * (1 - 3 / 1000)\<bar>
       \<le> 2 powi (- 51) *
          (real (unat (QuoteReserve st)) / real (unat (BaseReserve st)) * (1 - 3 / 1000)) \<and>
     \<bar>rBA - real (unat (BaseReserve st)) / real (unat (QuoteReserve st)) * (1 - 3 / 1000)\<bar>
       \<le> 2 powi (- 51) *
          (real (unat (BaseReserve st)) / real (unat (QuoteReserve st)) * (1 - 3 / 1000))"
proof -
  let ?qAB = "real (unat (QuoteReserve st)) / real (unat (BaseReserve st))"
  let ?qBA = "real (unat (BaseReserve st)) / real (unat (QuoteReserve st))"
  note r1 = uint64_quotient_range [OF assms(1) assms(2)]
  note r2 = uint64_quotient_range [OF assms(2) assms(1)]
  have f: "(1 - 3 / 1000 :: real) = 997 / 1000" by simp
  have e1: "\<bar>price_of_quotient ?qAB - ?qAB * (1 - 3 / 1000)\<bar>
      \<le> 2 powi (- 51) * (?qAB * (1 - 3 / 1000))"
    unfolding f using r1 by (intro price_of_quotient_err) simp_all
  have e2: "\<bar>price_of_quotient ?qBA - ?qBA * (1 - 3 / 1000)\<bar>
      \<le> 2 powi (- 51) * (?qBA * (1 - 3 / 1000))"
    unfolding f using r2 by (intro price_of_quotient_err) simp_all
  show ?thesis
    unfolding update_nonzero [OF assms] poolPrices_nonzero [OF assms]
    apply (intro exI conjI)
        apply (rule refl)
       apply (rule refl)
      apply simp
     apply (rule e1)
    apply (rule e2)
    done
qed

theorem stored_rates_witness:
  "BaseReserve (reserves 1000000 10000) \<noteq> 0 \<and> QuoteReserve (reserves 1000000 10000) \<noteq> 0 \<and>
   (\<exists>g' rAB rBA.
      updateGraphWithPoolState ln \<lparr>Vertices = [], Edges = []\<rparr> (reserves 1000000 10000)
        ''USDC'' ''SOL'' = Inr g' \<and>
      map Rate (Edges g') = [Fin rAB, Fin rBA] \<and>
      \<bar>rAB - 997 / 100000\<bar> \<le> 1 / 2000000 \<and>
      \<bar>rBA - 997 / 10\<bar> \<le> 1 / 200000)"
proof -
  have n: "BaseReserve (reserves 1000000 10000) \<noteq> 0" "QuoteReserve (reserves 1000000 10000) \<noteq> 0"
    by (simp_all add: reserves_def)
  have A: "real (unat (BaseReserve (reserves 1000000 10000))) = 1000000"
    by (simp add: reserves_def)
  have B: "real (unat (QuoteReserve (reserves 1000000 10000))) = 10000"
    by (simp add: reserves_def)
  from stored_rates [OF n, of ln "\<lparr>Vertices = [], Edges = []\<rparr>" "''USDC''" "''SOL''"]
  obtain g' rAB rBA where
    u: "updateGraphWithPoolState ln \<lparr>Vertices = [], Edges = []\<rparr> (reserves 1000000 10000)
        ''USDC'' ''SOL'' = Inr g'" and
    e: "Edges g' = Edges \<lparr>Vertices = [], Edges = []\<rparr> @
       [\<lparr>From = ''USDC'', To = ''SOL'', Weight = Fin (- ln rAB), Rate = Fin rAB\<rparr>,
        \<lparr>From = ''SOL'', To = ''USDC'', Weight = Fin (- ln rBA), Rate = Fin rBA\<rparr>]" and
    b1: "\<bar>rAB - 10000 / 1000000 * (1 - 3 / 1000)\<bar> \<le> 2 powi (- 51) * (10000 / 1000000 * (1 - 3 / 1000))" and
    b2: "\<bar>rBA - 1000000 / 10000 * (1 - 3 / 1000)\<bar> \<le> 2 powi (- 51) * (1000000 / 10000 * (1 - 3 / 1000))"
    unfolding A B by blast
  have c1: "\<bar>rAB - 997 / 100000\<bar> \<le> 1 / 2000000" using b1 by simp
  have c2: "\<bar>rBA - 997 / 10\<bar> \<le> 1 / 200000" using b2 by simp
  have m: "map Rate (Edges g') = [Fin rAB, Fin rBA]" using e by simp
  show ?thesis
    by (intro conjI exI) (rule n u m c1 c2)+
qed

text \<open>
  Claim C6 as stated fails in its second example: for a base reserve of 1,000,000 and a
  quote reserve of 10,000 the rate from quote to base is the \<^verbatim>\<open>float64\<close> nearest to
  99.7, which is not 99.70075 to the five decimals given.
\<close>

theorem scenario_A_rates:
  "poolPrices 1000000 10000 =
     Inr (Fin (1436828425116283 / 144115188075855872), Fin (7015763794513101 / 70368744177664)) \<and>
   \<bar>7015763794513101 / 70368744177664 - 997 / 10 :: real\<bar> \<le> 1 / 10 ^ 13 \<and>
   \<not> \<bar>7015763794513101 / 70368744177664 - 9970075 / 100000 :: real\<bar> \<le> 5 / 1000000"
proof -
  have "poolPrices 1000000 10000 =
     Inr (Fin (price_of_quotient (real (unat (10000 :: uint64)) / real (unat (1000000 :: uint64)))),
          Fin (price_of_quotient (real (unat (1000000 :: uint64)) / real (unat (10000 :: uint64)))))"
    by (rule poolPrices_nonzero) simp_all
  then have "poolPrices 1000000 10000 =
     Inr (Fin (1436828425116283 / 144115188075855872), Fin (7015763794513101 / 70368744177664))"
    by (simp add: price_scenario_A_base_to_quote price_scenario_A_quote_to_base)
  then show ?thesis by simp
qed

lemma price_of_quotient_strict:
  assumes q: "2 powi (- 64) \<le> q" "q \<le> 2 powi 64"
    and q': "2 powi (- 64) \<le> q'" "q' \<le> 2 powi 64"
    and gap: "q * (1 + 1 / 2251799813685248) < q' * (1 - 1 / 2251799813685248)"
  shows "price_of_quotient q < price_of_quotient q'"
proof -
  have pw: "(2::real) powi (- 51) = 1 / 2251799813685248" by simp
  have e: "\<bar>price_of_quotient q - q * (997 / 1000)\<bar> \<le> (1 / 2251799813685248) * (q * (997 / 1000))"
    using price_of_quotient_err [OF q] unfolding pw .
  have e': "\<bar>price_of_quotient q' - q' * (997 / 1000)\<bar> \<le> (1 / 2251799813685248) * (q' * (997 / 1000))"
    using price_of_quotient_err [OF q'] unfolding pw .
  define t where "t = q * (997 / 1000)"
  define t' where "t' = q' * (997 / 1000)"
  have "q * (1 + 1 / 2251799813685248) * (997 / 1000) < q' * (1 - 1 / 2251799813685248) * (997 / 1000)"
    using gap by (intro mult_strict_right_mono) simp_all
  then have g: "t + (1 / 2251799813685248) * t < t' - (1 / 2251799813685248) * t'"
    by (simp add: t_def t'_def algebra_simps)
  show ?thesis
    using e e' g unfolding t_def [symmetric] t'_def [symmetric] by linarith
qed

lemma reserve_gap:
  fixes x y :: real
  assumes "1 \<le> x" and "x + 1 \<le> y" and "x \<le> 1125899906842623"
  shows "x * (1 + 1 / 2251799813685248) < y * (1 - 1 / 2251799813685248)"
proof -
  have "x * (1 + 1 / 2251799813685248) < (x + 1) * (1 - 1 / 2251799813685248)"
    using assms(3) by (simp add: algebra_simps)
  also have "\<dots> \<le> y * (1 - 1 / 2251799813685248)"
    using assms(2) by (intro mult_right_mono) simp_all
  finally show ?thesis .
qed

lemma price_1: "price_of_quotient 1 = 8980177656976769 / 9007199254740992"
  by (simp add: price_of_quotient_def rne_simps)

lemma price_above_1:
  "price_of_quotient (18014398509481985 / 18014398509481984) =
     8980177656976769 / 9007199254740992"
  by (simp add: price_of_quotient_def rne_simps)

lemma price_below_1:
  "price_of_quotient (18014398509481984 / 18014398509481985) =
     8980177656976769 / 9007199254740992"
  by (simp add: price_of_quotient_def rne_simps)

text \<open>
  Claim C8, as the code has it: for a base reserve that is not zero, raising the quote
  reserve never lowers the price from base to quote and never raises the price from
  quote to base; and while the lower quote reserve is below \<open>2\<^sup>5\<^sup>0\<close>, the first price
  strictly rises and the second strictly falls.
\<close>

theorem rates_monotone:
  fixes a b b' :: uint64
  assumes "a \<noteq> 0" and "b < b'"
  shows "\<exists>ab ba ab' ba'.
     poolPrices a b = Inr (ab, ba) \<and> poolPrices a b' = Inr (ab', ba') \<and>
     fle ab ab' \<and> fle ba' ba \<and>
     (unat b < 2 ^ 50 \<longrightarrow> flt ab ab' \<and> flt ba' ba)"
proof -
  have b': "b' \<noteq> 0" using assms(2) by auto
  note A = uint64_real_range [OF assms(1)]
  note B' = uint64_real_range [OF b']
  note r' = uint64_quotient_range [OF assms(1) b'] uint64_quotient_range [OF b' assms(1)]
  show ?thesis
  proof (cases "b = 0")
    case True
    have "0 < price_of_quotient (real (unat b') / real (unat a))"
      using r'(1) by (intro price_of_quotient_pos) simp_all
    then show ?thesis
      unfolding True poolPrices_quote_zero [OF assms(1)] poolPrices_nonzero [OF assms(1) b']
      by (simp add: fle_def del: of_nat_unat)
  next
    case False
    note B = uint64_real_range [OF False]
    note r = uint64_quotient_range [OF assms(1) False] uint64_quotient_range [OF False assms(1)]
    have ltn: "unat b < unat b'" using assms(2) by (simp add: word_less_nat_alt)
    then have lt: "real (unat b) \<le> real (unat b')" by (simp only: of_nat_le_iff less_imp_le)
    have q1: "real (unat b) / real (unat a) \<le> real (unat b') / real (unat a)"
      using lt A by (intro divide_right_mono) linarith+
    have q2: "real (unat a) / real (unat b') \<le> real (unat a) / real (unat b)"
      using lt A B by (intro divide_left_mono mult_pos_pos) linarith+
    have p1: "0 < real (unat b) / real (unat a)"
      using r(1) two_powi_pos [of "- 64"] by linarith
    have p2: "0 < real (unat a) / real (unat b')"
      using r'(2) two_powi_pos [of "- 64"] by linarith
    have weak:
      "price_of_quotient (real (unat b) / real (unat a))
         \<le> price_of_quotient (real (unat b') / real (unat a))"
      "price_of_quotient (real (unat a) / real (unat b'))
         \<le> price_of_quotient (real (unat a) / real (unat b))"
      using price_of_quotient_mono [OF p1 q1] price_of_quotient_mono [OF p2 q2] by simp_all
    have strict:
      "price_of_quotient (real (unat b) / real (unat a))
         < price_of_quotient (real (unat b') / real (unat a)) \<and>
       price_of_quotient (real (unat a) / real (unat b'))
         < price_of_quotient (real (unat a) / real (unat b))"
      if small: "unat b < 2 ^ 50"
    proof -
      have "Suc (unat b) \<le> unat b'" using ltn by simp
      then have "real (Suc (unat b)) \<le> real (unat b')" by (simp only: of_nat_le_iff)
      then have s1: "real (unat b) + 1 \<le> real (unat b')" by (simp del: of_nat_unat)
      have "unat b \<le> 1125899906842623" using small by simp
      then have "real (unat b) \<le> real 1125899906842623" by (simp only: of_nat_le_iff)
      then have s2: "real (unat b) \<le> 1125899906842623" by (simp del: of_nat_unat)
      have gap: "real (unat b) * (1 + 1 / 2251799813685248)
          < real (unat b') * (1 - 1 / 2251799813685248)"
        using B s1 s2 by (intro reserve_gap) simp_all
      have Apos: "0 < real (unat a)" and Bpos: "0 < real (unat b)"
        and B'pos: "0 < real (unat b')"
        using A B B' by linarith+
      have g1: "real (unat b) / real (unat a) * (1 + 1 / 2251799813685248)
          < real (unat b') / real (unat a) * (1 - 1 / 2251799813685248)"
        using divide_strict_right_mono [OF gap Apos] by (simp del: of_nat_unat)
      have "real (unat b) * (1 + 1 / 2251799813685248) / (real (unat b) * real (unat b'))
          < real (unat b') * (1 - 1 / 2251799813685248) / (real (unat b) * real (unat b'))"
        using gap Bpos B'pos by (intro divide_strict_right_mono mult_pos_pos)
      then have "(1 + 1 / 2251799813685248) / real (unat b')
          < (1 - 1 / 2251799813685248) / real (unat b)"
        using Bpos B'pos by (simp del: of_nat_unat)
      then have "real (unat a) * ((1 + 1 / 2251799813685248) / real (unat b'))
          < real (unat a) * ((1 - 1 / 2251799813685248) / real (unat b))"
        using Apos by (intro mult_strict_left_mono)
      then have g2: "real (unat a) / real (unat b') * (1 + 1 / 2251799813685248)
          < real (unat a) / real (unat b) * (1 - 1 / 2251799813685248)"
        by (simp del: of_nat_unat)
      show ?thesis
        using price_of_quotient_strict [OF r(1) [THEN conjunct1] r(1) [THEN conjunct2]
            r'(1) [THEN conjunct1] r'(1) [THEN conjunct2] g1]
          price_of_quotient_strict [OF r'(2) [THEN conjunct1] r'(2) [THEN conjunct2]
            r(2) [THEN conjunct1] r(2) [THEN conjunct2] g2]
        by simp
    qed
    show ?thesis
      unfolding poolPrices_nonzero [OF assms(1) False] poolPrices_nonzero [OF assms(1) b']
      using weak strict by (simp add: fle_Fin del: of_nat_unat)
  qed
qed

theorem rates_monotone_witness:
  "(1000000 :: uint64) \<noteq> 0 \<and> (10000 :: uint64) < 20000 \<and> unat (10000 :: uint64) < 2 ^ 50 \<and>
   (\<exists>ab ba ab' ba'.
     poolPrices 1000000 10000 = Inr (ab, ba) \<and> poolPrices 1000000 20000 = Inr (ab', ba') \<and>
     flt ab ab' \<and> flt ba' ba)"
proof -
  have h: "(1000000 :: uint64) \<noteq> 0" "(10000 :: uint64) < 20000" "unat (10000 :: uint64) < 2 ^ 50"
    by simp_all
  from rates_monotone [OF h(1,2)] h(3) show ?thesis
    using h by blast
qed

text \<open>
  Claim C8 as stated (strictly greater, strictly less, for all reserves) fails: with a
  base reserve of \<open>2\<^sup>5\<^sup>4\<close>, the quote reserves \<open>2\<^sup>5\<^sup>4\<close> and \<open>2\<^sup>5\<^sup>4 + 1\<close> give the same
  price from base to quote and the same price from quote to base, since each pair of
  quotients narrows to the same \<^verbatim>\<open>float64\<close>.
\<close>

theorem equal_rates_at_large_reserves:
  "(18014398509481984 :: uint64) < 18014398509481985 \<and>
   poolPrices 18014398509481984 18014398509481984 =
     Inr (Fin (8980177656976769 / 9007199254740992), Fin (8980177656976769 / 9007199254740992)) \<and>
   poolPrices 18014398509481984 18014398509481985 =
     Inr (Fin (8980177656976769 / 9007199254740992), Fin (8980177656976769 / 9007199254740992)) \<and>
   \<not> flt (Fin (8980177656976769 / 9007199254740992)) (Fin (8980177656976769 / 9007199254740992))"
proof -
  have "poolPrices 18014398509481984 18014398509481984 =
     Inr (Fin (price_of_quotient (real (unat (18014398509481984 :: uint64)) /
                 real (unat (18014398509481984 :: uint64)))),
          Fin (price_of_quotient (real (unat (18014398509481984 :: uint64)) /
                 real (unat (18014398509481984 :: uint64)))))"
    by (rule poolPrices_nonzero) simp_all
  then have a: "poolPrices 18014398509481984 18014398509481984 =
     Inr (Fin (8980177656976769 / 9007199254740992), Fin (8980177656976769 / 9007199254740992))"
    by (simp add: price_1)
  have "poolPrices 18014398509481984 18014398509481985 =
     Inr (Fin (price_of_quotient (real (unat (18014398509481985 :: uint64)) /
                 real (unat (18014398509481984 :: uint64)))),
          Fin (price_of_quotient (real (unat (18014398509481984 :: uint64)) /
                 real (unat (18014398509481985 :: uint64)))))"
    by (rule poolPrices_nonzero) simp_all
  then have b: "poolPrices 18014398509481984 18014398509481985 =
     Inr (Fin (8980177656976769 / 9007199254740992), Fin (8980177656976769 / 9007199254740992))"
    by (simp add: price_above_1 price_below_1)
  show ?thesis using a b by simp
qed

section \<open>Properties of the detector\<close>

lemma walk_no_prev: "walk [] visited cycle current = (visited, None)"
  by (simp add: walk.simps prev_get_def)

lemma check_edge_no_prev: "snd (check_edge ex edges dst [] s edge) = snd s"
  by (cases s) (simp add: check_edge_def walk_no_prev Let_def)

lemma foldl_check_edge_no_prev:
  "snd (foldl (check_edge ex edges dst []) s es) = snd s"
  by (induction es arbitrary: s) (simp_all add: check_edge_no_prev)

lemma from_start_one_vertex:
  assumes "length (Vertices g) \<le> 1"
  shows "from_start ex g opportunities start = opportunities"
proof -
  have "length (Vertices g) - 1 = 0" using assms by simp
  then show ?thesis
    by (simp add: from_start_def relax_rounds_def foldl_check_edge_no_prev)
qed

lemma bellmanFord_one_vertex:
  assumes "length (Vertices g) \<le> 1"
  shows "bellmanFord ex g = []"
proof -
  have "foldl (from_start ex g) opps vs = opps" for opps vs
    by (induction vs arbitrary: opps) (simp_all add: from_start_one_vertex [OF assms])
  then show ?thesis by (simp add: bellmanFord_def)
qed

section \<open>Exact sums of small integers\<close>












section \<open>Claims about the detector\<close>

text \<open>
  Claim C9: with fewer than two vertices, or fewer than two edges, a tick of the
  detection loop only logs that it is waiting: the detector is not run and nothing is
  reported. Run on a graph with one vertex, the detector returns the empty list.
\<close>

theorem insufficient_data:
  "(length (Vertices g) < 2 \<longrightarrow>
      detectArbitrage_tick ex g = WaitingVertices (length (Vertices g))) \<and>
   (2 \<le> length (Vertices g) \<and> length (Edges g) < 2 \<longrightarrow>
      detectArbitrage_tick ex g = WaitingEdges (length (Edges g))) \<and>
   (length (Vertices g) = 1 \<longrightarrow> bellmanFord ex g = [])"
  by (simp add: detectArbitrage_tick_def bellmanFord_one_vertex)

theorem insufficient_data_witness:
  "length (Vertices \<lparr>Vertices = [''SOL''],
      Edges = [\<lparr>From = ''USDC'', To = ''SOL'', Weight = Fin (- 1), Rate = Fin 2\<rparr>,
               \<lparr>From = ''SOL'', To = ''USDC'', Weight = Fin (- 1), Rate = Fin 2\<rparr>]\<rparr>) = 1 \<and>
   detectArbitrage_tick (\<lambda>x. Fin (2 powi \<lfloor>x\<rfloor>))
     \<lparr>Vertices = [''SOL''],
      Edges = [\<lparr>From = ''USDC'', To = ''SOL'', Weight = Fin (- 1), Rate = Fin 2\<rparr>,
               \<lparr>From = ''SOL'', To = ''USDC'', Weight = Fin (- 1), Rate = Fin 2\<rparr>]\<rparr> =
     WaitingVertices 1 \<and>
   bellmanFord (\<lambda>x. Fin (2 powi \<lfloor>x\<rfloor>))
     \<lparr>Vertices = [''SOL''],
      Edges = [\<lparr>From = ''USDC'', To = ''SOL'', Weight = Fin (- 1), Rate = Fin 2\<rparr>,
               \<lparr>From = ''SOL'', To = ''USDC'', Weight = Fin (- 1), Rate = Fin 2\<rparr>]\<rparr> = [] \<and>
   detectArbitrage_tick (\<lambda>x. Fin (2 powi \<lfloor>x\<rfloor>))
     \<lparr>Vertices = [''USDC'', ''SOL''],
      Edges = [\<lparr>From = ''USDC'', To = ''SOL'', Weight = Fin (- 1), Rate = Fin 2\<rparr>]\<rparr> =
     WaitingEdges 1"
  using
    insufficient_data [of "\<lparr>Vertices = [''SOL''],
      Edges = [\<lparr>From = ''USDC'', To = ''SOL'', Weight = Fin (- 1), Rate = Fin 2\<rparr>,
               \<lparr>From = ''SOL'', To = ''USDC'', Weight = Fin (- 1), Rate = Fin 2\<rparr>]\<rparr>"
      "\<lambda>x. Fin (2 powi \<lfloor>x\<rfloor>)"]
    insufficient_data [of "\<lparr>Vertices = [''USDC'', ''SOL''],
      Edges = [\<lparr>From = ''USDC'', To = ''SOL'', Weight = Fin (- 1), Rate = Fin 2\<rparr>]\<rparr>"
      "\<lambda>x. Fin (2 powi \<lfloor>x\<rfloor>)"]
  by simp

section \<open>Monotonicity of the float64 operations\<close>

lemma rnd_at_zero [simp]: "rnd_at e 0 = 0"
  by (simp add: rnd_at_def)

lemma round64_r64_value:
  "round64 x =
     (if 2 ^ 1024 \<le> \<bar>r64_value x\<bar> then (if 0 < x then PInf else NInf) else Fin (r64_value x))"
  by (simp add: round64_def r64_value_def Let_def)












lemma round64_not_NaN [simp]: "round64 x \<noteq> NaN"
  by (simp add: round64_r64_value)

section \<open>The predecessor map and the walk along it\<close>








section \<open>The rounding error of a relaxation\<close>














section \<open>Closed walks and potentials\<close>






section \<open>Claim about the reported cycles\<close>




section \<open>Claim about graphs without a profitable walk\<close>





end
